theory Spec2Isabelle
  imports Main "HOL-Library.Multiset"
begin

section \<open>Constants and data (main.go, lines 13-28)\<close>

text \<open>
  Go's \<open>int\<close> is modelled as \<open>int\<close>: the only arithmetic of \<open>generatePassword\<close> is
  \<open>config.Length - password.Len()\<close>, reached only when \<open>config.Length \<ge> 6\<close> with
  \<open>0 \<le> password.Len() \<le> 4\<close>, and \<open>i + 1\<close> with \<open>i\<close> below the length of a slice, so no
  operation can overflow. Go strings are byte strings; they are \<open>string\<close> (a \<open>char list\<close>).
\<close>

definition minPasswordLength :: int where
  "minPasswordLength = 6"

definition lowercaseChars :: string where
  "lowercaseChars = ''abcdefghijklmnopqrstuvwxyz''"

definition uppercaseChars :: string where
  "uppercaseChars = ''ABCDEFGHIJKLMNOPQRSTUVWXYZ''"

definition numberChars :: string where
  "numberChars = ''0123456789''"

definition specialChars :: string where
  "specialChars = ''!@#$%^&*()_+-=[]{}|;:,.<>?''"

record PasswordConfig =
  Length :: int
  UseLowercase :: bool
  UseUppercase :: bool
  UseNumbers :: bool
  UseSpecialChars :: bool

section \<open>Errors\<close>

text \<open>
  The source builds its errors with \<open>fmt.Errorf\<close>; each constructor stands for one message:
  \<^item> \<open>InvalidLength\<close>: "password length must be at least 6 characters" (line 52);
  \<^item> \<open>NoCharacterClassSelected\<close>: "at least one character type must be selected" (line 55);
  \<^item> \<open>MaxNotPositive\<close>: "max must be positive" (line 33);
  \<^item> \<open>ReaderError\<close>: the error returned by \<open>rand.Int\<close> (line 37);
  \<^item> \<open>RandomIndexFailed e\<close>: "failed to generate random index: %w" wrapping \<open>e\<close>;
  \<^item> \<open>ShuffleFailed e\<close>: "failed to shuffle password: %w" wrapping \<open>e\<close> (line 128);
  \<^item> \<open>IndexOutOfRange\<close>: the run-time panic of an index expression out of range.

  \<open>RandomIndexFailed\<close> and \<open>ShuffleFailed\<close> are the two ways a failure of the random
  source leaves \<open>generatePassword\<close>.
\<close>

datatype error =
    InvalidLength
  | NoCharacterClassSelected
  | MaxNotPositive
  | ReaderError
  | RandomIndexFailed error
  | ShuffleFailed error
  | IndexOutOfRange

section \<open>The random source (main.go, lines 30-40)\<close>

text \<open>
  \<open>crypto/rand\<close> is outside the repository, so it is a parameter of the model:
  \<open>source s n m\<close> is what the call number \<open>n\<close> (counted from 0) of \<open>rand.Int\<close> with
  bound \<open>m\<close> answers, \<open>None\<close> when it returns an error. \<open>calls s\<close> counts the calls of
  \<open>rand.Int\<close> made so far. Every operation returns the state together with its result,
  also when it fails, so that the draws of a failed run can be counted.
\<close>

record rng =
  source :: "nat \<Rightarrow> int \<Rightarrow> int option"
  calls :: nat

type_synonym 'a result = "(error + 'a) \<times> rng"

definition secureRandomInt :: "int \<Rightarrow> rng \<Rightarrow> int result" where
  "secureRandomInt maxv s =
     (if maxv \<le> 0 then (Inl MaxNotPositive, s)
      else (case source s (calls s) maxv of
              None \<Rightarrow> (Inl ReaderError, s\<lparr>calls := calls s + 1\<rparr>)
            | Some n \<Rightarrow> (Inr n, s\<lparr>calls := calls s + 1\<rparr>)))"

text \<open>
  The contract of \<open>rand.Int\<close>: a value in \<open>[0, max)\<close> whenever it answers; and a source
  that moreover never fails.
\<close>

definition inRange :: "(nat \<Rightarrow> int \<Rightarrow> int option) \<Rightarrow> bool" where
  "inRange src = (\<forall>n m r. 0 < m \<longrightarrow> src n m = Some r \<longrightarrow> 0 \<le> r \<and> r < m)"

definition neverFails :: "(nat \<Rightarrow> int \<Rightarrow> int option) \<Rightarrow> bool" where
  "neverFails src = (\<forall>n m. 0 < m \<longrightarrow> src n m \<noteq> None)"

section \<open>Validation (main.go, lines 49-58)\<close>

definition validateConfig :: "PasswordConfig \<Rightarrow> error option" where
  "validateConfig config =
     (if Length config < minPasswordLength then Some InvalidLength
      else if \<not> UseLowercase config \<and> \<not> UseUppercase config
              \<and> \<not> UseNumbers config \<and> \<not> UseSpecialChars config
           then Some NoCharacterClassSelected
      else None)"

section \<open>Generation (main.go, lines 60-134)\<close>

text \<open>Lines 66-79: the character set, grown by one \<open>+=\<close> per selected class.\<close>

definition buildCharSet :: "PasswordConfig \<Rightarrow> string" where
  "buildCharSet config =
     (let charSet = [];
          charSet = (if UseLowercase config then charSet @ lowercaseChars else charSet);
          charSet = (if UseUppercase config then charSet @ uppercaseChars else charSet);
          charSet = (if UseNumbers config then charSet @ numberChars else charSet);
          charSet = (if UseSpecialChars config then charSet @ specialChars else charSet)
      in charSet)"

text \<open>
  The body shared by the four blocks of lines 83-110 and by the fill loop (lines 115-119):
  draw an index below the length of a table and write the byte at that index to the builder.
  An index outside the table is Go's run-time panic.
\<close>

definition appendRandomChar :: "string \<Rightarrow> string \<Rightarrow> rng \<Rightarrow> string result" where
  "appendRandomChar table password s =
     (case secureRandomInt (int (length table)) s of
        (Inl err, s') \<Rightarrow> (Inl (RandomIndexFailed err), s')
      | (Inr idx, s') \<Rightarrow>
          (if 0 \<le> idx \<and> idx < int (length table)
           then (Inr (password @ [table ! nat idx]), s')
           else (Inl IndexOutOfRange, s')))"

definition includeClass :: "bool \<Rightarrow> string \<Rightarrow> string \<Rightarrow> rng \<Rightarrow> string result" where
  "includeClass use table password s =
     (if use then appendRandomChar table password s else (Inr password, s))"

text \<open>Lines 81-110: one character of each selected class, in the order of the source.\<close>

definition guaranteeInclusion :: "PasswordConfig \<Rightarrow> rng \<Rightarrow> string result" where
  "guaranteeInclusion config s =
     (case includeClass (UseLowercase config) lowercaseChars [] s of
        (Inl err, s1) \<Rightarrow> (Inl err, s1)
      | (Inr p1, s1) \<Rightarrow>
     (case includeClass (UseUppercase config) uppercaseChars p1 s1 of
        (Inl err, s2) \<Rightarrow> (Inl err, s2)
      | (Inr p2, s2) \<Rightarrow>
     (case includeClass (UseNumbers config) numberChars p2 s2 of
        (Inl err, s3) \<Rightarrow> (Inl err, s3)
      | (Inr p3, s3) \<Rightarrow>
          includeClass (UseSpecialChars config) specialChars p3 s3)))"

text \<open>
  Lines 112-120: the fill loop; the first argument is the number of iterations left,
  \<open>remainingLength - i\<close>.
\<close>

fun fillLoop :: "nat \<Rightarrow> string \<Rightarrow> string \<Rightarrow> rng \<Rightarrow> string result" where
  "fillLoop 0 charSet password s = (Inr password, s)"
| "fillLoop (Suc n) charSet password s =
     (case appendRandomChar charSet password s of
        (Inl err, s') \<Rightarrow> (Inl err, s')
      | (Inr password', s') \<Rightarrow> fillLoop n charSet password' s')"

text \<open>
  Lines 122-131: the shuffle loop; the first argument is the loop variable \<open>i\<close>, and the
  loop runs while \<open>i > 0\<close>. The tuple assignment reads both elements, then writes position
  \<open>i\<close>, then position \<open>j\<close>. All bytes written to the builder come from the tables, which
  are ASCII, so the conversion to runes keeps one rune per byte.
\<close>

fun shuffleLoop :: "nat \<Rightarrow> string \<Rightarrow> rng \<Rightarrow> string result" where
  "shuffleLoop 0 passwordRunes s = (Inr passwordRunes, s)"
| "shuffleLoop (Suc i) passwordRunes s =
     (case secureRandomInt (int (Suc i) + 1) s of
        (Inl err, s') \<Rightarrow> (Inl (ShuffleFailed err), s')
      | (Inr j, s') \<Rightarrow>
          (if 0 \<le> j \<and> j < int (length passwordRunes)
           then shuffleLoop i
                  (passwordRunes[Suc i := passwordRunes ! nat j,
                                 nat j := passwordRunes ! Suc i]) s'
           else (Inl IndexOutOfRange, s')))"

definition shuffle :: "string \<Rightarrow> rng \<Rightarrow> string result" where
  "shuffle passwordRunes s = shuffleLoop (length passwordRunes - 1) passwordRunes s"

text \<open>Lines 81-120: the builder as it stands just before the shuffle.\<close>

definition accumulate :: "PasswordConfig \<Rightarrow> rng \<Rightarrow> string result" where
  "accumulate config s =
     (case guaranteeInclusion config s of
        (Inl err, s1) \<Rightarrow> (Inl err, s1)
      | (Inr password, s1) \<Rightarrow>
          fillLoop (nat (Length config - int (length password)))
            (buildCharSet config) password s1)"

definition generatePassword :: "PasswordConfig \<Rightarrow> rng \<Rightarrow> string result" where
  "generatePassword config s =
     (case validateConfig config of
        Some err \<Rightarrow> (Inl err, s)
      | None \<Rightarrow>
          (case accumulate config s of
             (Inl err, s2) \<Rightarrow> (Inl err, s2)
           | (Inr password, s2) \<Rightarrow> shuffle password s2))"

section \<open>Notions of the specification\<close>

text \<open>
  The four class tables with their booleans, in the canonical order lowercase, uppercase,
  digits, symbols; the tables whose boolean is true; and their number.
\<close>

definition classTables :: "PasswordConfig \<Rightarrow> (bool \<times> string) list" where
  "classTables config =
     [(UseLowercase config, lowercaseChars), (UseUppercase config, uppercaseChars),
      (UseNumbers config, numberChars), (UseSpecialChars config, specialChars)]"

definition enabledTables :: "PasswordConfig \<Rightarrow> string list" where
  "enabledTables config = map snd (filter fst (classTables config))"

definition enabledCount :: "PasswordConfig \<Rightarrow> nat" where
  "enabledCount config =
     length (filter id [UseLowercase config, UseUppercase config,
                        UseNumbers config, UseSpecialChars config])"

text \<open>
  The table every draw of the build phase is expected to index, one entry per draw: each
  enabled class's own table, then the composed alphabet for the rest of the length.
\<close>

definition drawPlan :: "PasswordConfig \<Rightarrow> string list" where
  "drawPlan config =
     enabledTables config
     @ replicate (nat (Length config) - length (enabledTables config))
         (concat (enabledTables config))"

text \<open>
  Reading the random source ahead of a run: \<open>answers s k m\<close> says that the \<open>k\<close>-th
  next call, made with bound \<open>m\<close>, answers with a value in \<open>[0, m)\<close>;
  \<open>drawnIndex s k m\<close> is that value, and \<open>drawnChar s k table\<close> the character of
  \<open>table\<close> it selects when the bound is the length of the table.
\<close>

definition answers :: "rng \<Rightarrow> nat \<Rightarrow> int \<Rightarrow> bool" where
  "answers s k m =
     (case source s (calls s + k) m of None \<Rightarrow> False | Some r \<Rightarrow> 0 \<le> r \<and> r < m)"

definition drawnIndex :: "rng \<Rightarrow> nat \<Rightarrow> int \<Rightarrow> nat" where
  "drawnIndex s k m = nat (the (source s (calls s + k) m))"

definition drawnChar :: "rng \<Rightarrow> nat \<Rightarrow> string \<Rightarrow> char" where
  "drawnChar s k table = table ! drawnIndex s k (int (length table))"

text \<open>
  The Fisher-Yates shuffle in the words of the specification: for index \<open>i\<close> from
  \<open>length - 1\<close> down to \<open>1\<close>, swap the elements at positions \<open>i\<close> and \<open>pick i\<close>.
\<close>

definition swapAt :: "nat \<Rightarrow> nat \<Rightarrow> 'a list \<Rightarrow> 'a list" where
  "swapAt i j xs = xs[i := xs ! j, j := xs ! i]"

definition fisherYates :: "(nat \<Rightarrow> nat) \<Rightarrow> 'a list \<Rightarrow> 'a list" where
  "fisherYates pick xs = foldl (\<lambda>ys i. swapAt i (pick i) ys) xs (rev [1..<length xs])"

text \<open>
  Drawing one character from each table of a list, in order: the common shape of the
  inclusion blocks and of the fill loop, used to reason about both at once.
\<close>

fun includeAll :: "string list \<Rightarrow> string \<Rightarrow> rng \<Rightarrow> string result" where
  "includeAll [] password s = (Inr password, s)"
| "includeAll (t # ts) password s =
     (case appendRandomChar t password s of
        (Inl err, s') \<Rightarrow> (Inl err, s')
      | (Inr password', s') \<Rightarrow> includeAll ts password' s')"

section \<open>Concrete inputs\<close>

text \<open>
  Two random sources: one that always answers in range, and one that does so for its first
  \<open>k\<close> calls and fails from then on.
\<close>

definition cyclingSource :: "nat \<Rightarrow> int \<Rightarrow> int option" where
  "cyclingSource n m = Some ((7 * int n + 3) mod m)"

definition failingFrom :: "nat \<Rightarrow> nat \<Rightarrow> int \<Rightarrow> int option" where
  "failingFrom k n m = (if n < k then Some ((7 * int n + 3) mod m) else None)"

definition freshRng :: "(nat \<Rightarrow> int \<Rightarrow> int option) \<Rightarrow> rng" where
  "freshRng src = \<lparr>source = src, calls = 0\<rparr>"

definition allClasses :: "int \<Rightarrow> PasswordConfig" where
  "allClasses n = \<lparr>Length = n, UseLowercase = True, UseUppercase = True,
                    UseNumbers = True, UseSpecialChars = True\<rparr>"

definition noClass :: "int \<Rightarrow> PasswordConfig" where
  "noClass n = \<lparr>Length = n, UseLowercase = False, UseUppercase = False,
                 UseNumbers = False, UseSpecialChars = False\<rparr>"

definition lowerAndNumbers :: "int \<Rightarrow> PasswordConfig" where
  "lowerAndNumbers n = \<lparr>Length = n, UseLowercase = True, UseUppercase = False,
                         UseNumbers = True, UseSpecialChars = False\<rparr>"

definition lowerOnly :: "int \<Rightarrow> PasswordConfig" where
  "lowerOnly n = \<lparr>Length = n, UseLowercase = True, UseUppercase = False,
                    UseNumbers = False, UseSpecialChars = False\<rparr>"

section \<open>Validation errors\<close>

text \<open>
  C4 (as stated, refuted): the special-character table is the string of the specification,
  but it does not hold 28 characters.
\<close>

theorem specialChars_not_28:
  "specialChars = ''!@#$%^&*()_+-=[]{}|;:,.<>?'' \<and> length specialChars \<noteq> 28"
  by (simp add: specialChars_def)

text \<open>
  C4 (amended): the special-character table is the fixed string
  \<open>!@#$%^&*()_+-=[]{}|;:,.<>?\<close>, and it contains 26 characters.
\<close>

theorem specialChars_table:
  "specialChars = ''!@#$%^&*()_+-=[]{}|;:,.<>?'' \<and> length specialChars = 26"
  by (simp add: specialChars_def)

text \<open>
  C5: a configuration whose length is below 6 is rejected with \<open>InvalidLength\<close>, whatever
  the four class booleans are.
\<close>

theorem short_length_InvalidLength:
  "Length config < 6 \<Longrightarrow> generatePassword config s = (Inl InvalidLength, s)"
  by (simp add: generatePassword_def validateConfig_def minPasswordLength_def)

theorem short_length_InvalidLength_witness:
  "Length (lowerAndNumbers 5) < 6
   \<and> generatePassword (lowerAndNumbers 5) (freshRng cyclingSource)
       = (Inl InvalidLength, freshRng cyclingSource)"
  using short_length_InvalidLength [of "lowerAndNumbers 5" "freshRng cyclingSource"]
  by (simp add: lowerAndNumbers_def)

text \<open>
  C3 (as stated, refuted): with all four class booleans false and length 5, generation
  fails with \<open>InvalidLength\<close>, not with \<open>NoCharacterClassSelected\<close>.
\<close>

theorem no_class_short_length_counterexample:
  "\<not> UseLowercase (noClass 5) \<and> \<not> UseUppercase (noClass 5)
   \<and> \<not> UseNumbers (noClass 5) \<and> \<not> UseSpecialChars (noClass 5)
   \<and> fst (generatePassword (noClass 5) (freshRng cyclingSource)) = Inl InvalidLength
   \<and> fst (generatePassword (noClass 5) (freshRng cyclingSource))
       \<noteq> Inl NoCharacterClassSelected"
  by (simp add: generatePassword_def validateConfig_def minPasswordLength_def noClass_def)

text \<open>
  C3 (amended): with all four class booleans false, generation fails with
  \<open>NoCharacterClassSelected\<close> for every length of at least 6; for a length below 6 the
  length check comes first and the error is \<open>InvalidLength\<close>.
\<close>

theorem no_class_error:
  assumes "\<not> UseLowercase config" and "\<not> UseUppercase config"
    and "\<not> UseNumbers config" and "\<not> UseSpecialChars config"
  shows "generatePassword config s =
           (Inl (if 6 \<le> Length config then NoCharacterClassSelected else InvalidLength), s)"
  using assms
  by (simp add: generatePassword_def validateConfig_def minPasswordLength_def)

theorem no_class_error_witness:
  "\<not> UseLowercase (noClass 10) \<and> \<not> UseUppercase (noClass 10)
   \<and> \<not> UseNumbers (noClass 10) \<and> \<not> UseSpecialChars (noClass 10)
   \<and> generatePassword (noClass 10) (freshRng cyclingSource)
       = (Inl NoCharacterClassSelected, freshRng cyclingSource)"
  using no_class_error [of "noClass 10" "freshRng cyclingSource"]
  by (simp add: noClass_def)

text \<open>
  C6: when \<open>validateConfig\<close> rejects the configuration, \<open>generatePassword\<close> returns that
  error and leaves the random source untouched: no draw has been made.
\<close>

theorem invalid_config_no_draw:
  "validateConfig config = Some err \<Longrightarrow>
     generatePassword config s = (Inl err, s)
     \<and> calls (snd (generatePassword config s)) = calls s"
  by (simp add: generatePassword_def)

theorem invalid_config_no_draw_witness:
  "validateConfig (noClass 10) = Some NoCharacterClassSelected
   \<and> generatePassword (noClass 10) (freshRng cyclingSource)
       = (Inl NoCharacterClassSelected, freshRng cyclingSource)
   \<and> calls (snd (generatePassword (noClass 10) (freshRng cyclingSource)))
       = calls (freshRng cyclingSource)"
proof -
  have v: "validateConfig (noClass 10) = Some NoCharacterClassSelected"
    by (simp add: validateConfig_def minPasswordLength_def noClass_def)
  from invalid_config_no_draw [OF v, of "freshRng cyclingSource"] v
  show ?thesis by simp
qed

section \<open>The random source and single draws\<close>

lemma inRangeD: "inRange src \<Longrightarrow> 0 < m \<Longrightarrow> src n m = Some r \<Longrightarrow> 0 \<le> r \<and> r < m"
  unfolding inRange_def by blast

lemma answers_contract:
  "inRange (source s) \<Longrightarrow> neverFails (source s) \<Longrightarrow> 0 < m \<Longrightarrow> answers s k m"
  by (auto simp: inRange_def neverFails_def answers_def split: option.splits)

lemma answers_advance [simp]:
  "answers (s\<lparr>calls := calls s + 1\<rparr>) k m = answers s (Suc k) m"
  "answers (s\<lparr>calls := Suc (calls s)\<rparr>) k m = answers s (Suc k) m"
  by (simp_all add: answers_def)

lemma drawnIndex_advance [simp]:
  "drawnIndex (s\<lparr>calls := calls s + 1\<rparr>) k m = drawnIndex s (Suc k) m"
  "drawnIndex (s\<lparr>calls := Suc (calls s)\<rparr>) k m = drawnIndex s (Suc k) m"
  by (simp_all add: drawnIndex_def)

lemma drawnChar_advance [simp]:
  "drawnChar (s\<lparr>calls := calls s + 1\<rparr>) k t = drawnChar s (Suc k) t"
  "drawnChar (s\<lparr>calls := Suc (calls s)\<rparr>) k t = drawnChar s (Suc k) t"
  by (simp_all add: drawnChar_def drawnIndex_def)

lemma secureRandomInt_Inr_iff:
  "secureRandomInt m s = (Inr r, s') \<longleftrightarrow>
     0 < m \<and> source s (calls s) m = Some r \<and> s' = s\<lparr>calls := calls s + 1\<rparr>"
  by (auto simp: secureRandomInt_def split: option.splits)

lemma secureRandomInt_answers:
  "answers s 0 m \<Longrightarrow>
     secureRandomInt m s = (Inr (int (drawnIndex s 0 m)), s\<lparr>calls := calls s + 1\<rparr>)
     \<and> int (drawnIndex s 0 m) < m"
  by (auto simp: secureRandomInt_def answers_def drawnIndex_def split: option.splits)

lemma appendRandomChar_Inr_iff:
  "appendRandomChar t p s = (Inr p', s') \<longleftrightarrow>
     answers s 0 (int (length t)) \<and> p' = p @ [drawnChar s 0 t]
     \<and> s' = s\<lparr>calls := calls s + 1\<rparr>"
  by (auto simp: appendRandomChar_def secureRandomInt_def answers_def drawnChar_def
        drawnIndex_def split: option.splits)

lemma drawnChar_member: "answers s k (int (length t)) \<Longrightarrow> drawnChar s k t \<in> set t"
  by (auto simp: answers_def drawnChar_def drawnIndex_def split: option.splits)

section \<open>The class tables\<close>

text \<open>
  All four tables are ASCII, so every byte written to the builder is one rune; and no
  character belongs to two tables.
\<close>

lemma tables_ascii:
  "\<forall>c\<in>set (lowercaseChars @ uppercaseChars @ numberChars @ specialChars). of_char c < (128::nat)"
  by (simp add: lowercaseChars_def uppercaseChars_def numberChars_def specialChars_def)

lemma table_lengths:
  "length lowercaseChars = 26" "length uppercaseChars = 26" "length numberChars = 10"
  "length specialChars = 26"
  by (simp_all add: lowercaseChars_def uppercaseChars_def numberChars_def specialChars_def)

lemma tables_distinct:
  "distinct (lowercaseChars @ uppercaseChars @ numberChars @ specialChars)"
  by (simp add: lowercaseChars_def uppercaseChars_def numberChars_def specialChars_def)

lemma tables_disjoint:
  "set lowercaseChars \<inter> set uppercaseChars = {}"
  "set lowercaseChars \<inter> set numberChars = {}"
  "set lowercaseChars \<inter> set specialChars = {}"
  "set uppercaseChars \<inter> set numberChars = {}"
  "set uppercaseChars \<inter> set specialChars = {}"
  "set numberChars \<inter> set specialChars = {}"
  using tables_distinct by auto

lemma one_table:
  "c \<in> set lowercaseChars \<Longrightarrow>
     c \<notin> set uppercaseChars \<and> c \<notin> set numberChars \<and> c \<notin> set specialChars"
  "c \<in> set uppercaseChars \<Longrightarrow>
     c \<notin> set lowercaseChars \<and> c \<notin> set numberChars \<and> c \<notin> set specialChars"
  "c \<in> set numberChars \<Longrightarrow>
     c \<notin> set lowercaseChars \<and> c \<notin> set uppercaseChars \<and> c \<notin> set specialChars"
  "c \<in> set specialChars \<Longrightarrow>
     c \<notin> set lowercaseChars \<and> c \<notin> set uppercaseChars \<and> c \<notin> set numberChars"
  using tables_disjoint by blast+

lemma buildCharSet_concat: "buildCharSet config = concat (enabledTables config)"
  by (simp add: buildCharSet_def enabledTables_def classTables_def)

lemma enabledTables_length: "length (enabledTables config) \<le> 4"
  by (simp add: enabledTables_def classTables_def)

lemma enabledCount_tables: "length (enabledTables config) = enabledCount config"
  by (simp add: enabledTables_def classTables_def enabledCount_def)

lemma enabledTables_subset:
  "set (enabledTables config) \<subseteq> {lowercaseChars, uppercaseChars, numberChars, specialChars}"
  by (auto simp: enabledTables_def classTables_def)

lemma enabledTables_member:
  "t \<in> set (enabledTables config) \<longleftrightarrow>
     UseLowercase config \<and> t = lowercaseChars \<or> UseUppercase config \<and> t = uppercaseChars
     \<or> UseNumbers config \<and> t = numberChars \<or> UseSpecialChars config \<and> t = specialChars"
  by (auto simp: enabledTables_def classTables_def)

lemma enabledTables_positive:
  assumes "t \<in> set (enabledTables config)"
  shows "0 < length t"
proof -
  from assms enabledTables_subset [of config]
  have "t = lowercaseChars \<or> t = uppercaseChars \<or> t = numberChars \<or> t = specialChars"
    by auto
  then show ?thesis
    by (auto simp: lowercaseChars_def uppercaseChars_def numberChars_def specialChars_def)
qed

lemma enabledTables_nonempty:
  "validateConfig config = None \<Longrightarrow> enabledTables config \<noteq> []"
  by (auto simp: validateConfig_def enabledTables_def classTables_def split: if_splits)

lemma enabled_of_char:
  assumes "t \<in> set (enabledTables config)" and "c \<in> set t"
  shows "(c \<in> set lowercaseChars \<longrightarrow> UseLowercase config)
       \<and> (c \<in> set uppercaseChars \<longrightarrow> UseUppercase config)
       \<and> (c \<in> set numberChars \<longrightarrow> UseNumbers config)
       \<and> (c \<in> set specialChars \<longrightarrow> UseSpecialChars config)"
proof -
  from assms(1) consider "UseLowercase config" "t = lowercaseChars"
    | "UseUppercase config" "t = uppercaseChars"
    | "UseNumbers config" "t = numberChars"
    | "UseSpecialChars config" "t = specialChars"
    unfolding enabledTables_member by blast
  then show ?thesis
  proof cases
    case 1
    with assms(2) one_table(1) [of c] show ?thesis by blast
  next
    case 2
    with assms(2) one_table(2) [of c] show ?thesis by blast
  next
    case 3
    with assms(2) one_table(3) [of c] show ?thesis by blast
  next
    case 4
    with assms(2) one_table(4) [of c] show ?thesis by blast
  qed
qed

section \<open>The build phase: guaranteed inclusion and fill\<close>

lemma result_case_id:
  "(case r of (Inl err, s') \<Rightarrow> (Inl err, s') | (Inr p', s') \<Rightarrow> (Inr p', s')) = r"
  by (cases r) (simp split: sum.splits)

lemma includeAll_Inr_iff:
  "includeAll ts p s = (Inr p', s') \<longleftrightarrow>
     (\<forall>k<length ts. answers s k (int (length (ts ! k))))
     \<and> p' = p @ map (\<lambda>k. drawnChar s k (ts ! k)) [0..<length ts]
     \<and> s' = s\<lparr>calls := calls s + length ts\<rparr>"
proof (induction ts arbitrary: p s)
  case Nil
  then show ?case by auto
next
  case (Cons t ts)
  have split_all: "\<And>P. (\<forall>k<Suc (length ts). P k) \<longleftrightarrow> P 0 \<and> (\<forall>k<length ts. P (Suc k))"
    by (auto simp: less_Suc_eq_0_disj)
  have upt0: "[0..<Suc (length ts)] = 0 # map Suc [0..<length ts]"
    by (simp add: upt_conv_Cons map_Suc_upt del: upt_Suc)
  show ?case
  proof (cases "appendRandomChar t p s")
    case (Pair r s1)
    show ?thesis
    proof (cases r)
      case (Inl e)
      with Pair have "\<not> answers s 0 (int (length t))"
        using appendRandomChar_Inr_iff [of t p s] by (metis Inl_Inr_False prod.inject)
      with Pair Inl show ?thesis by (auto simp: split_all)
    next
      case (Inr p1)
      with Pair have a: "answers s 0 (int (length t))" and p1: "p1 = p @ [drawnChar s 0 t]"
        and s1: "s1 = s\<lparr>calls := calls s + 1\<rparr>"
        using appendRandomChar_Inr_iff [of t p s p1 s1] by simp_all
      show ?thesis
        using Pair Inr a
        by (simp add: Cons.IH split_all upt0 comp_def p1 s1 del: upt_Suc)
    qed
  qed
qed

lemma includeAll_append:
  "includeAll (ts @ us) p s =
     (case includeAll ts p s of
        (Inl err, s') \<Rightarrow> (Inl err, s')
      | (Inr p', s') \<Rightarrow> includeAll us p' s')"
  by (induction ts arbitrary: p s) (auto split: prod.splits sum.splits)

lemma fillLoop_includeAll: "fillLoop n cs p s = includeAll (replicate n cs) p s"
  by (induction n arbitrary: p s) (auto split: prod.splits sum.splits)

lemma guaranteeInclusion_includeAll:
  "guaranteeInclusion config s = includeAll (enabledTables config) [] s"
  unfolding guaranteeInclusion_def enabledTables_def classTables_def includeClass_def
  by (cases "UseLowercase config"; cases "UseUppercase config"; cases "UseNumbers config";
      cases "UseSpecialChars config")
     (simp_all add: result_case_id cong: prod.case_cong sum.case_cong)

lemma accumulate_includeAll: "accumulate config s = includeAll (drawPlan config) [] s"
proof (cases "includeAll (enabledTables config) [] s")
  case (Pair r s1)
  show ?thesis
  proof (cases r)
    case (Inl e)
    with Pair show ?thesis
      by (simp add: accumulate_def guaranteeInclusion_includeAll drawPlan_def includeAll_append)
  next
    case (Inr p1)
    with Pair have "length p1 = length (enabledTables config)"
      by (simp add: includeAll_Inr_iff)
    then have "nat (Length config - int (length p1))
                 = nat (Length config) - length (enabledTables config)"
      by simp
    with Pair Inr show ?thesis
      by (simp add: accumulate_def guaranteeInclusion_includeAll drawPlan_def includeAll_append
            fillLoop_includeAll buildCharSet_concat)
  qed
qed

lemma valid_length: "validateConfig config = None \<Longrightarrow> 6 \<le> Length config"
  by (simp add: validateConfig_def minPasswordLength_def split: if_splits)

lemma enabledCount_le: "validateConfig config = None \<Longrightarrow> enabledCount config \<le> nat (Length config)"
  using enabledTables_length [of config] valid_length [of config]
  by (simp add: enabledCount_tables)

lemma drawPlan_length:
  "validateConfig config = None \<Longrightarrow> length (drawPlan config) = nat (Length config)"
  using enabledTables_length [of config] valid_length [of config]
  by (simp add: drawPlan_def)

lemma drawPlan_nth:
  assumes "validateConfig config = None"
  shows "k < enabledCount config \<Longrightarrow> drawPlan config ! k = enabledTables config ! k"
    and "enabledCount config \<le> k \<Longrightarrow> k < nat (Length config) \<Longrightarrow>
           drawPlan config ! k = buildCharSet config"
  by (simp_all add: drawPlan_def nth_append enabledCount_tables buildCharSet_concat)

lemma drawPlan_positive:
  assumes "validateConfig config = None" and "t \<in> set (drawPlan config)"
  shows "0 < length t"
proof -
  from assms(1) obtain u where u: "u \<in> set (enabledTables config)"
    using enabledTables_nonempty [of config] by (cases "enabledTables config") auto
  from assms(2) consider "t \<in> set (enabledTables config)" | "t = concat (enabledTables config)"
    by (auto simp: drawPlan_def split: if_splits)
  then show ?thesis
  proof cases
    case 1
    then show ?thesis by (rule enabledTables_positive)
  next
    case 2
    have "0 < length u" using u by (rule enabledTables_positive)
    with u 2 show ?thesis by (cases u) auto
  qed
qed

lemma drawPlan_member:
  "t \<in> set (drawPlan config) \<Longrightarrow> set t \<subseteq> \<Union> (set ` set (enabledTables config))"
  by (auto simp: drawPlan_def split: if_splits)

lemma accumulate_Inr:
  assumes "validateConfig config = None" and "accumulate config s = (Inr acc, s2)"
  shows "\<forall>k<nat (Length config). answers s k (int (length (drawPlan config ! k)))"
    and "acc = map (\<lambda>k. drawnChar s k (drawPlan config ! k)) [0..<nat (Length config)]"
    and "s2 = s\<lparr>calls := calls s + nat (Length config)\<rparr>"
  using assms(2) unfolding accumulate_includeAll includeAll_Inr_iff drawPlan_length [OF assms(1)]
  by simp_all

lemma accumulate_contract:
  assumes "validateConfig config = None" and "inRange (source s)" and "neverFails (source s)"
  shows "accumulate config s =
           (Inr (map (\<lambda>k. drawnChar s k (drawPlan config ! k)) [0..<nat (Length config)]),
            s\<lparr>calls := calls s + nat (Length config)\<rparr>)"
proof -
  have "answers s k (int (length (drawPlan config ! k)))" if "k < length (drawPlan config)" for k
  proof -
    from that have "drawPlan config ! k \<in> set (drawPlan config)" by simp
    with assms(1) have "0 < length (drawPlan config ! k)" by (rule drawPlan_positive)
    with assms(2,3) show ?thesis by (simp add: answers_contract)
  qed
  then show ?thesis
    unfolding accumulate_includeAll includeAll_Inr_iff
    by (simp add: drawPlan_length [OF assms(1)])
qed

lemma guaranteeInclusion_prefix:
  assumes "validateConfig config = None" and "accumulate config s = (Inr acc, s2)"
  shows "guaranteeInclusion config s =
           (Inr (take (enabledCount config) acc), s\<lparr>calls := calls s + enabledCount config\<rparr>)"
proof -
  let ?ts = "enabledTables config"
  have le: "length ?ts \<le> nat (Length config)"
    using enabledTables_length [of config] valid_length [OF assms(1)] by simp
  have plan: "drawPlan config ! k = ?ts ! k" if "k < length ?ts" for k
    using that by (simp add: drawPlan_def nth_append)
  from accumulate_Inr [OF assms]
  have a: "\<forall>k<nat (Length config). answers s k (int (length (drawPlan config ! k)))"
    and acc: "acc = map (\<lambda>k. drawnChar s k (drawPlan config ! k)) [0..<nat (Length config)]"
    by simp_all
  have "\<forall>k<length ?ts. answers s k (int (length (?ts ! k)))"
    using a le plan by (metis less_le_trans)
  moreover have "take (length ?ts) acc = map (\<lambda>k. drawnChar s k (?ts ! k)) [0..<length ?ts]"
    unfolding acc take_map using le plan by (simp add: min_absorb2)
  ultimately show ?thesis
    unfolding guaranteeInclusion_includeAll includeAll_Inr_iff enabledCount_tables [symmetric]
    by simp
qed

lemma accumulate_covers:
  assumes "validateConfig config = None" and "accumulate config s = (Inr acc, s2)"
    and "t \<in> set (enabledTables config)"
  shows "\<exists>c\<in>set acc. c \<in> set t"
proof -
  let ?n = "nat (Length config)"
  from assms(3) obtain k where k: "k < enabledCount config" and t: "enabledTables config ! k = t"
    by (auto simp: in_set_conv_nth enabledCount_tables)
  from k enabledCount_le [OF assms(1)] have kn: "k < ?n" by simp
  have plan: "drawPlan config ! k = t"
    using drawPlan_nth(1) [OF assms(1) k] t by simp
  from accumulate_Inr [OF assms(1,2)] kn plan
  have "answers s k (int (length t))" and acc: "acc ! k = drawnChar s k t" and len: "length acc = ?n"
    by auto
  then have "acc ! k \<in> set t"
    by (simp add: drawnChar_member)
  moreover have "acc ! k \<in> set acc"
    using kn len by (metis nth_mem)
  ultimately show ?thesis by blast
qed

lemma accumulate_within:
  assumes "validateConfig config = None" and "accumulate config s = (Inr acc, s2)"
    and "c \<in> set acc"
  shows "\<exists>t\<in>set (enabledTables config). c \<in> set t"
proof -
  let ?n = "nat (Length config)"
  from accumulate_Inr [OF assms(1,2)]
  have a: "\<forall>k<?n. answers s k (int (length (drawPlan config ! k)))"
    and acc: "acc = map (\<lambda>k. drawnChar s k (drawPlan config ! k)) [0..<?n]" by simp_all
  from assms(3) obtain k where k: "k < ?n" and c: "c = drawnChar s k (drawPlan config ! k)"
    unfolding acc by auto
  from a k have "c \<in> set (drawPlan config ! k)"
    unfolding c by (simp add: drawnChar_member)
  moreover have "drawPlan config ! k \<in> set (drawPlan config)"
    using k by (simp add: drawPlan_length [OF assms(1)])
  ultimately show ?thesis
    using drawPlan_member by blast
qed

section \<open>The shuffle\<close>

lemma swapAt_length [simp]: "length (swapAt i j xs) = length xs"
  by (simp add: swapAt_def)

lemma swapAt_mset: "i < length xs \<Longrightarrow> j < length xs \<Longrightarrow> mset (swapAt i j xs) = mset xs"
  unfolding swapAt_def by (rule mset_swap)

lemma shuffleLoop_Suc:
  "shuffleLoop (Suc i) xs s =
     (case secureRandomInt (int (Suc i) + 1) s of
        (Inl err, s') \<Rightarrow> (Inl (ShuffleFailed err), s')
      | (Inr j, s') \<Rightarrow>
          (if 0 \<le> j \<and> j < int (length xs) then shuffleLoop i (swapAt (Suc i) (nat j) xs) s'
           else (Inl IndexOutOfRange, s')))"
  unfolding swapAt_def by (rule shuffleLoop.simps(2))

lemma shuffleLoop_Inr:
  "i \<le> length xs - 1 \<Longrightarrow> shuffleLoop i xs s = (Inr ys, s') \<Longrightarrow>
     mset ys = mset xs \<and> s' = s\<lparr>calls := calls s + i\<rparr>"
proof (induction i arbitrary: xs s)
  case 0
  then show ?case by simp
next
  case (Suc i)
  from Suc.prems(2) obtain j s1 where
    draw: "secureRandomInt (int (Suc i) + 1) s = (Inr j, s1)"
    and j: "0 \<le> j" "j < int (length xs)"
    and rest: "shuffleLoop i (swapAt (Suc i) (nat j) xs) s1 = (Inr ys, s')"
    unfolding shuffleLoop_Suc by (auto split: prod.splits sum.splits if_splits)
  from draw have s1: "s1 = s\<lparr>calls := calls s + 1\<rparr>"
    by (simp add: secureRandomInt_Inr_iff)
  from Suc.prems(1) have i: "Suc i < length xs" by simp
  then have "i \<le> length (swapAt (Suc i) (nat j) xs) - 1" by simp
  from Suc.IH [OF this rest]
  have "mset ys = mset (swapAt (Suc i) (nat j) xs)" and "s' = s1\<lparr>calls := calls s1 + i\<rparr>"
    by simp_all
  moreover have "mset (swapAt (Suc i) (nat j) xs) = mset xs"
    using i j by (simp add: swapAt_mset)
  ultimately show ?case by (simp add: s1)
qed

lemma shuffle_Inr:
  "shuffle xs s = (Inr ys, s') \<Longrightarrow>
     mset ys = mset xs \<and> s' = s\<lparr>calls := calls s + (length xs - 1)\<rparr>"
  unfolding shuffle_def by (rule shuffleLoop_Inr) simp_all

lemma rev_upt_Suc: "rev [1..<Suc (Suc i)] = Suc i # rev [1..<Suc i]"
  by simp

lemma shuffleLoop_answers:
  "i \<le> length xs - 1 \<Longrightarrow> (\<forall>k<i. answers s k (int (i - k) + 1)) \<Longrightarrow>
     shuffleLoop i xs s =
       (Inr (foldl (\<lambda>ys m. swapAt m (drawnIndex s (i - m) (int m + 1)) ys) xs (rev [1..<Suc i])),
        s\<lparr>calls := calls s + i\<rparr>)"
proof (induction i arbitrary: xs s)
  case 0
  then show ?case by simp
next
  case (Suc i)
  let ?j = "drawnIndex s 0 (int (Suc i) + 1)"
  let ?s1 = "s\<lparr>calls := calls s + 1\<rparr>"
  from Suc.prems(2) have a0: "answers s 0 (int (Suc i) + 1)"
    by (metis diff_zero zero_less_Suc)
  from secureRandomInt_answers [OF a0]
  have draw: "secureRandomInt (int (Suc i) + 1) s = (Inr (int ?j), ?s1)"
    and jle: "int ?j < int (Suc i) + 1" by simp_all
  from Suc.prems(1) have i: "Suc i < length xs" by simp
  have len: "i \<le> length (swapAt (Suc i) ?j xs) - 1" using i by simp
  have rest: "\<forall>k<i. answers ?s1 k (int (i - k) + 1)"
  proof (intro allI impI)
    fix k assume "k < i"
    then have "Suc k < Suc i" by simp
    with Suc.prems(2) have "answers s (Suc k) (int (Suc i - Suc k) + 1)" by blast
    then show "answers ?s1 k (int (i - k) + 1)" by simp
  qed
  have cong: "foldl (\<lambda>ys m. swapAt m (drawnIndex ?s1 (i - m) (int m + 1)) ys) zs (rev [1..<Suc i])
            = foldl (\<lambda>ys m. swapAt m (drawnIndex s (Suc i - m) (int m + 1)) ys) zs (rev [1..<Suc i])"
    for zs :: string
    by (rule foldl_cong) (auto simp: Suc_diff_le)
  have "shuffleLoop (Suc i) xs s = shuffleLoop i (swapAt (Suc i) ?j xs) ?s1"
    unfolding shuffleLoop_Suc using draw jle i by simp
  also have "\<dots> = (Inr (foldl (\<lambda>ys m. swapAt m (drawnIndex ?s1 (i - m) (int m + 1)) ys)
                         (swapAt (Suc i) ?j xs) (rev [1..<Suc i])),
                   ?s1\<lparr>calls := calls ?s1 + i\<rparr>)"
    by (rule Suc.IH [OF len rest])
  finally show ?case
    by (simp only: cong rev_upt_Suc foldl_Cons diff_self_eq_0) simp
qed

lemma shuffleLoop_fails:
  "i \<le> length xs - 1 \<Longrightarrow> inRange (source s) \<Longrightarrow>
   \<exists>k<i. source s (calls s + k) (int (i - k) + 1) = None \<Longrightarrow>
     \<exists>s'. shuffleLoop i xs s = (Inl (ShuffleFailed ReaderError), s')"
proof (induction i arbitrary: xs s)
  case 0
  then show ?case by simp
next
  case (Suc i)
  let ?s1 = "s\<lparr>calls := calls s + 1\<rparr>"
  show ?case
  proof (cases "source s (calls s) (int (Suc i) + 1)")
    case None
    then show ?thesis
      unfolding shuffleLoop_Suc by (simp add: secureRandomInt_def)
  next
    case (Some r)
    have "0 < int (Suc i) + 1" by simp
    from inRangeD [OF Suc.prems(2) this Some] have r: "0 \<le> r" "r < int (Suc i) + 1"
      by simp_all
    from Suc.prems(1) have i: "Suc i < length xs" by simp
    from Suc.prems(3) obtain k where k: "k < Suc i"
      and none: "source s (calls s + k) (int (Suc i - k) + 1) = None" by blast
    from none Some have "k \<noteq> 0" by (cases k) auto
    then obtain k' where k': "k = Suc k'" by (cases k) auto
    with k none have "\<exists>k<i. source ?s1 (calls ?s1 + k) (int (i - k) + 1) = None"
      by (intro exI [of _ k']) simp
    moreover have "i \<le> length (swapAt (Suc i) (nat r) xs) - 1" using i by simp
    moreover have "inRange (source ?s1)" using Suc.prems(2) by simp
    ultimately have "\<exists>s'. shuffleLoop i (swapAt (Suc i) (nat r) xs) ?s1
                         = (Inl (ShuffleFailed ReaderError), s')"
      by (rule Suc.IH [rotated 2])
    moreover have "shuffleLoop (Suc i) xs s = shuffleLoop i (swapAt (Suc i) (nat r) xs) ?s1"
      unfolding shuffleLoop_Suc using Some r i by (simp add: secureRandomInt_def)
    ultimately show ?thesis by simp
  qed
qed

section \<open>Whole runs\<close>

lemma generatePassword_Inr:
  assumes "generatePassword config s = (Inr pw, s')"
  obtains acc s2 where "validateConfig config = None" and "accumulate config s = (Inr acc, s2)"
    and "shuffle acc s2 = (Inr pw, s')"
  using assms unfolding generatePassword_def
  by (auto split: option.splits prod.splits sum.splits)

lemma generatePassword_valid:
  "validateConfig config = None \<Longrightarrow> accumulate config s = (Inr acc, s2) \<Longrightarrow>
     generatePassword config s = shuffle acc s2"
  by (simp add: generatePassword_def)

lemma cyclingSource_inRange: "inRange cyclingSource"
  by (simp add: inRange_def cyclingSource_def)

lemma cyclingSource_neverFails: "neverFails cyclingSource"
  by (simp add: neverFails_def cyclingSource_def)

lemma failingFrom_inRange: "inRange (failingFrom k)"
  by (simp add: inRange_def failingFrom_def)

lemma freshRng_simps [simp]: "source (freshRng src) = src" "calls (freshRng src) = 0"
  by (simp_all add: freshRng_def)

lemma valid_examples:
  "validateConfig (lowerAndNumbers 6) = None" "validateConfig (lowerOnly 6) = None"
  "validateConfig (allClasses 12) = None"
  by (simp_all add: validateConfig_def minPasswordLength_def lowerAndNumbers_def lowerOnly_def
        allClasses_def)

text \<open>
  C1: when a valid configuration yields a password, each class is enabled exactly when the
  password holds a character of its table: every enabled class is represented, and no
  character of a disabled class occurs.
\<close>

theorem class_coverage:
  assumes "validateConfig config = None"
    and "generatePassword config s = (Inr pw, s')"
  shows "(UseLowercase config \<longleftrightarrow> (\<exists>c\<in>set pw. c \<in> set lowercaseChars))
       \<and> (UseUppercase config \<longleftrightarrow> (\<exists>c\<in>set pw. c \<in> set uppercaseChars))
       \<and> (UseNumbers config \<longleftrightarrow> (\<exists>c\<in>set pw. c \<in> set numberChars))
       \<and> (UseSpecialChars config \<longleftrightarrow> (\<exists>c\<in>set pw. c \<in> set specialChars))"
proof -
  from assms(2) obtain acc s2 where acc: "accumulate config s = (Inr acc, s2)"
    and sh: "shuffle acc s2 = (Inr pw, s')"
    by (rule generatePassword_Inr)
  from shuffle_Inr [OF sh] have "mset pw = mset acc" by simp
  then have pw: "set pw = set acc" by (rule mset_eq_setD)
  have covers: "\<exists>c\<in>set pw. c \<in> set t" if "t \<in> set (enabledTables config)" for t
    unfolding pw using assms(1) acc that by (rule accumulate_covers)
  have within: "\<exists>t\<in>set (enabledTables config). c \<in> set t" if "c \<in> set pw" for c
    using assms(1) acc that [unfolded pw] by (rule accumulate_within)
  have key: "(c \<in> set lowercaseChars \<longrightarrow> UseLowercase config)
       \<and> (c \<in> set uppercaseChars \<longrightarrow> UseUppercase config)
       \<and> (c \<in> set numberChars \<longrightarrow> UseNumbers config)
       \<and> (c \<in> set specialChars \<longrightarrow> UseSpecialChars config)" if "c \<in> set pw" for c
  proof -
    from within [OF that] obtain t where "t \<in> set (enabledTables config)" "c \<in> set t"
      by blast
    then show ?thesis by (rule enabled_of_char)
  qed
  have lower: "\<exists>c\<in>set pw. c \<in> set lowercaseChars" if "UseLowercase config"
    by (rule covers) (simp add: enabledTables_member that)
  have upper: "\<exists>c\<in>set pw. c \<in> set uppercaseChars" if "UseUppercase config"
    by (rule covers) (simp add: enabledTables_member that)
  have numbers: "\<exists>c\<in>set pw. c \<in> set numberChars" if "UseNumbers config"
    by (rule covers) (simp add: enabledTables_member that)
  have special: "\<exists>c\<in>set pw. c \<in> set specialChars" if "UseSpecialChars config"
    by (rule covers) (simp add: enabledTables_member that)
  from lower upper numbers special key show ?thesis by blast
qed

theorem class_coverage_witness:
  "validateConfig (lowerAndNumbers 6) = None
   \<and> fst (generatePassword (lowerAndNumbers 6) (freshRng cyclingSource)) = Inr ''50dcry''
   \<and> set ''50dcry'' \<inter> set lowercaseChars \<noteq> {}
   \<and> set ''50dcry'' \<inter> set uppercaseChars = {}
   \<and> set ''50dcry'' \<inter> set numberChars \<noteq> {}
   \<and> set ''50dcry'' \<inter> set specialChars = {}"
proof -
  let ?c = "lowerAndNumbers 6" and ?s = "freshRng cyclingSource"
  have v: "validateConfig ?c = None" by (rule valid_examples)
  have f: "fst (generatePassword ?c ?s) = Inr ''50dcry''" by code_simp
  then have g: "generatePassword ?c ?s = (Inr ''50dcry'', snd (generatePassword ?c ?s))"
    by (simp add: prod_eq_iff)
  have flags: "UseLowercase ?c" "\<not> UseUppercase ?c" "UseNumbers ?c" "\<not> UseSpecialChars ?c"
    by (simp_all add: lowerAndNumbers_def)
  from class_coverage [OF v g] flags v f show ?thesis by blast
qed

text \<open>
  C2: for a valid configuration and a random source that always answers within its bound,
  \<open>generatePassword\<close> returns a password, and its length is exactly \<open>Length config\<close>.
\<close>

theorem generated_length:
  assumes "validateConfig config = None" and "inRange (source s)" and "neverFails (source s)"
  shows "\<exists>pw s'. generatePassword config s = (Inr pw, s') \<and> int (length pw) = Length config"
proof -
  let ?n = "nat (Length config)"
  define acc where "acc = map (\<lambda>k. drawnChar s k (drawPlan config ! k)) [0..<?n]"
  define s2 where "s2 = s\<lparr>calls := calls s + ?n\<rparr>"
  have acc: "accumulate config s = (Inr acc, s2)"
    unfolding acc_def s2_def using assms by (rule accumulate_contract)
  have len: "length acc = ?n" by (simp add: acc_def)
  have src: "inRange (source s2)" "neverFails (source s2)"
    using assms(2,3) by (simp_all add: s2_def)
  have "\<forall>k<length acc - 1. answers s2 k (int (length acc - 1 - k) + 1)"
    using src by (simp add: answers_contract)
  from shuffleLoop_answers [OF order_refl this]
  obtain pw s' where sh: "shuffle acc s2 = (Inr pw, s')"
    unfolding shuffle_def by blast
  from shuffle_Inr [OF sh] have "mset pw = mset acc" by simp
  then have "length pw = length acc" by (rule mset_eq_length)
  with len valid_length [OF assms(1)] have "int (length pw) = Length config" by simp
  moreover have "generatePassword config s = (Inr pw, s')"
    using assms(1) acc sh by (simp add: generatePassword_valid)
  ultimately show ?thesis by blast
qed

theorem generated_length_witness:
  "validateConfig (allClasses 12) = None
   \<and> inRange (source (freshRng cyclingSource)) \<and> neverFails (source (freshRng cyclingSource))
   \<and> (\<exists>pw s'. generatePassword (allClasses 12) (freshRng cyclingSource) = (Inr pw, s')
         \<and> int (length pw) = 12)"
  using generated_length [of "allClasses 12" "freshRng cyclingSource"]
    valid_examples(3) cyclingSource_inRange cyclingSource_neverFails
  by (simp add: allClasses_def)

text \<open>
  C7: for a valid configuration and a random source that always answers within its bound,
  the character set of the fill step is the concatenation, in canonical order, of the
  enabled tables; the inclusion step makes one draw per enabled class, the \<open>k\<close>-th of
  them indexing the \<open>k\<close>-th enabled table with that table's length as bound; and every
  later draw of the build phase indexes the composed character set.
\<close>

theorem alphabet_and_inclusion:
  assumes "validateConfig config = None" and "inRange (source s)" and "neverFails (source s)"
  shows "buildCharSet config = concat (enabledTables config)
    \<and> guaranteeInclusion config s =
        (Inr (map (\<lambda>k. drawnChar s k (enabledTables config ! k)) [0..<enabledCount config]),
         s\<lparr>calls := calls s + enabledCount config\<rparr>)
    \<and> accumulate config s =
        (Inr (map (\<lambda>k. drawnChar s k (enabledTables config ! k)) [0..<enabledCount config]
              @ map (\<lambda>k. drawnChar s k (buildCharSet config))
                  [enabledCount config..<nat (Length config)]),
         s\<lparr>calls := calls s + nat (Length config)\<rparr>)"
proof -
  let ?n = "nat (Length config)" and ?k = "enabledCount config"
  let ?acc = "map (\<lambda>k. drawnChar s k (drawPlan config ! k)) [0..<?n]"
  have kn: "?k \<le> ?n" using assms(1) by (rule enabledCount_le)
  have acc: "accumulate config s = (Inr ?acc, s\<lparr>calls := calls s + ?n\<rparr>)"
    using assms by (rule accumulate_contract)
  have "[0..<?n] = [0..<?k] @ [?k..<?n]"
    using kn by (metis le_add_diff_inverse upt_add_eq_append zero_le)
  then have "?acc = map (\<lambda>k. drawnChar s k (drawPlan config ! k)) [0..<?k]
                  @ map (\<lambda>k. drawnChar s k (drawPlan config ! k)) [?k..<?n]"
    by simp
  also have "map (\<lambda>k. drawnChar s k (drawPlan config ! k)) [0..<?k]
               = map (\<lambda>k. drawnChar s k (enabledTables config ! k)) [0..<?k]"
    by (rule map_cong) (simp_all add: drawPlan_nth [OF assms(1)])
  also have "map (\<lambda>k. drawnChar s k (drawPlan config ! k)) [?k..<?n]
               = map (\<lambda>k. drawnChar s k (buildCharSet config)) [?k..<?n]"
    by (rule map_cong) (simp_all add: drawPlan_nth [OF assms(1)])
  finally have split: "?acc = map (\<lambda>k. drawnChar s k (enabledTables config ! k)) [0..<?k]
                  @ map (\<lambda>k. drawnChar s k (buildCharSet config)) [?k..<?n]" .
  have "guaranteeInclusion config s = (Inr (take ?k ?acc), s\<lparr>calls := calls s + ?k\<rparr>)"
    using assms(1) acc by (rule guaranteeInclusion_prefix)
  moreover have "take ?k ?acc = map (\<lambda>k. drawnChar s k (enabledTables config ! k)) [0..<?k]"
    unfolding split by simp
  ultimately show ?thesis
    using acc split buildCharSet_concat [of config] by simp
qed

theorem alphabet_and_inclusion_witness:
  "validateConfig (lowerAndNumbers 6) = None
   \<and> inRange (source (freshRng cyclingSource)) \<and> neverFails (source (freshRng cyclingSource))
   \<and> buildCharSet (lowerAndNumbers 6) = ''abcdefghijklmnopqrstuvwxyz0123456789''
   \<and> enabledTables (lowerAndNumbers 6) = [lowercaseChars, numberChars]
   \<and> guaranteeInclusion (lowerAndNumbers 6) (freshRng cyclingSource)
       = (Inr ''d0'', (freshRng cyclingSource)\<lparr>calls := 2\<rparr>)
   \<and> accumulate (lowerAndNumbers 6) (freshRng cyclingSource)
       = (Inr ''d0ry5c'', (freshRng cyclingSource)\<lparr>calls := 6\<rparr>)"
proof -
  let ?c = "lowerAndNumbers 6" and ?s = "freshRng cyclingSource"
  have v: "validateConfig ?c = None" by (rule valid_examples)
  have r: "inRange (source ?s)" by (simp add: cyclingSource_inRange)
  have n: "neverFails (source ?s)" by (simp add: cyclingSource_neverFails)
  have ts: "enabledTables ?c = [lowercaseChars, numberChars]"
    by (simp add: enabledTables_def classTables_def lowerAndNumbers_def)
  have k: "enabledCount ?c = 2" by (simp add: enabledCount_def lowerAndNumbers_def)
  have len: "nat (Length ?c) = 6" by (simp add: lowerAndNumbers_def)
  have cs: "concat (enabledTables ?c) = ''abcdefghijklmnopqrstuvwxyz0123456789''"
    by (simp add: ts lowercaseChars_def numberChars_def)
  have p: "map (\<lambda>k. drawnChar ?s k (enabledTables ?c ! k)) [0..<enabledCount ?c] = ''d0''"
    by code_simp
  have q: "map (\<lambda>k. drawnChar ?s k (buildCharSet ?c)) [enabledCount ?c..<nat (Length ?c)]
             = ''ry5c''"
    by code_simp
  note T = alphabet_and_inclusion [OF v r n]
  from T have b: "buildCharSet ?c = ''abcdefghijklmnopqrstuvwxyz0123456789''"
    unfolding cs by blast
  from T have g: "guaranteeInclusion ?c ?s
                    = (Inr ''d0'', ?s\<lparr>calls := calls ?s + enabledCount ?c\<rparr>)"
    unfolding p by blast
  from T have a: "accumulate ?c ?s
                    = (Inr (''d0'' @ ''ry5c''), ?s\<lparr>calls := calls ?s + nat (Length ?c)\<rparr>)"
    unfolding p q by blast
  from g have g': "guaranteeInclusion ?c ?s = (Inr ''d0'', ?s\<lparr>calls := 2\<rparr>)"
    by (simp add: k)
  from a have a': "accumulate ?c ?s = (Inr ''d0ry5c'', ?s\<lparr>calls := 6\<rparr>)"
    by (simp add: len)
  from v r n b ts g' a' show ?thesis by blast
qed

text \<open>
  C8: the shuffle is the Fisher-Yates algorithm. Let \<open>acc\<close> be the builder before the
  shuffle and the source answer within its bounds. The draw for index \<open>i\<close> is call number
  \<open>length acc - 1 - i\<close> of the shuffle, made with bound \<open>i + 1\<close>. If all these draws answer,
  the result is \<open>acc\<close> with positions \<open>i\<close> and \<open>j\<close> swapped for \<open>i\<close> from
  \<open>length acc - 1\<close> down to \<open>1\<close>, each \<open>j\<close> in \<open>[0, i]\<close>; if one of them fails,
  \<open>generatePassword\<close> returns the shuffle's error and no password.
\<close>

theorem shuffle_fisher_yates:
  assumes "validateConfig config = None"
    and "accumulate config s = (Inr acc, s1)"
    and "inRange (source s)"
  shows "((\<forall>i\<in>{1..<length acc}.
             source s1 (calls s1 + (length acc - 1 - i)) (int i + 1) \<noteq> None) \<longrightarrow>
          generatePassword config s =
            (Inr (fisherYates (\<lambda>i. drawnIndex s1 (length acc - 1 - i) (int i + 1)) acc),
             s1\<lparr>calls := calls s1 + (length acc - 1)\<rparr>)
          \<and> (\<forall>i\<in>{1..<length acc}. drawnIndex s1 (length acc - 1 - i) (int i + 1) \<le> i))
       \<and> ((\<exists>i\<in>{1..<length acc}.
             source s1 (calls s1 + (length acc - 1 - i)) (int i + 1) = None) \<longrightarrow>
          (\<exists>s2. generatePassword config s = (Inl (ShuffleFailed ReaderError), s2)))"
proof -
  let ?m = "length acc - 1"
  have gp: "generatePassword config s = shuffleLoop ?m acc s1"
    using assms(1,2) by (simp add: generatePassword_valid shuffle_def)
  from accumulate_Inr(3) [OF assms(1,2)] assms(3) have src: "inRange (source s1)" by simp
  have drawn: "\<exists>r. source s1 (calls s1 + (?m - i)) (int i + 1) = Some r \<and> 0 \<le> r \<and> r < int i + 1"
    if "source s1 (calls s1 + (?m - i)) (int i + 1) \<noteq> None" for i
  proof -
    from that obtain r where r: "source s1 (calls s1 + (?m - i)) (int i + 1) = Some r"
      by auto
    have "0 < int i + 1" by simp
    from inRangeD [OF src this r] r show ?thesis by simp
  qed
  have ok: "generatePassword config s =
              (Inr (fisherYates (\<lambda>i. drawnIndex s1 (?m - i) (int i + 1)) acc),
               s1\<lparr>calls := calls s1 + ?m\<rparr>)
            \<and> (\<forall>i\<in>{1..<length acc}. drawnIndex s1 (?m - i) (int i + 1) \<le> i)"
    if all: "\<forall>i\<in>{1..<length acc}. source s1 (calls s1 + (?m - i)) (int i + 1) \<noteq> None"
  proof
    have "answers s1 k (int (?m - k) + 1)" if k: "k < ?m" for k
    proof -
      from k have "?m - k \<in> {1..<length acc}" by auto
      with all have "source s1 (calls s1 + (?m - (?m - k))) (int (?m - k) + 1) \<noteq> None"
        by blast
      from drawn [OF this] k show ?thesis by (auto simp: answers_def)
    qed
    then have "\<forall>k<?m. answers s1 k (int (?m - k) + 1)" by blast
    from shuffleLoop_answers [OF order_refl this] have
      "shuffleLoop ?m acc s1 =
         (Inr (foldl (\<lambda>ys i. swapAt i (drawnIndex s1 (?m - i) (int i + 1)) ys) acc
                 (rev [1..<Suc ?m])), s1\<lparr>calls := calls s1 + ?m\<rparr>)" .
    moreover have "[1..<Suc ?m] = [1..<length acc]" by (cases acc) simp_all
    ultimately show "generatePassword config s =
              (Inr (fisherYates (\<lambda>i. drawnIndex s1 (?m - i) (int i + 1)) acc),
               s1\<lparr>calls := calls s1 + ?m\<rparr>)"
      by (simp add: gp fisherYates_def)
    show "\<forall>i\<in>{1..<length acc}. drawnIndex s1 (?m - i) (int i + 1) \<le> i"
    proof
      fix i assume "i \<in> {1..<length acc}"
      with all have "source s1 (calls s1 + (?m - i)) (int i + 1) \<noteq> None" by blast
      from drawn [OF this] show "drawnIndex s1 (?m - i) (int i + 1) \<le> i"
        by (auto simp: drawnIndex_def)
    qed
  qed
  have bad: "\<exists>s2. generatePassword config s = (Inl (ShuffleFailed ReaderError), s2)"
    if "\<exists>i\<in>{1..<length acc}. source s1 (calls s1 + (?m - i)) (int i + 1) = None"
  proof -
    from that obtain i where i: "1 \<le> i" "i < length acc"
      and none: "source s1 (calls s1 + (?m - i)) (int i + 1) = None" by auto
    have "?m - i < ?m" "?m - (?m - i) = i" using i by simp_all
    with none have "\<exists>k<?m. source s1 (calls s1 + k) (int (?m - k) + 1) = None"
      by (intro exI [of _ "?m - i"]) simp
    from shuffleLoop_fails [OF order_refl src this] show ?thesis by (simp add: gp)
  qed
  from ok bad show ?thesis by blast
qed

theorem shuffle_fisher_yates_witness:
  "validateConfig (lowerOnly 6) = None
   \<and> accumulate (lowerOnly 6) (freshRng (failingFrom 8))
       = (Inr ''dkryfm'', (freshRng (failingFrom 8))\<lparr>calls := 6\<rparr>)
   \<and> inRange (source (freshRng (failingFrom 8)))
   \<and> source (freshRng (failingFrom 8)) (6 + (length ''dkryfm'' - 1 - 3)) (int 3 + 1) = None
   \<and> (\<exists>s2. generatePassword (lowerOnly 6) (freshRng (failingFrom 8))
              = (Inl (ShuffleFailed ReaderError), s2))
   \<and> accumulate (lowerOnly 6) (freshRng cyclingSource)
       = (Inr ''dkryfm'', (freshRng cyclingSource)\<lparr>calls := 6\<rparr>)
   \<and> inRange (source (freshRng cyclingSource))
   \<and> generatePassword (lowerOnly 6) (freshRng cyclingSource)
       = (Inr ''fkdmry'', (freshRng cyclingSource)\<lparr>calls := 11\<rparr>)"
proof -
  let ?c = "lowerOnly 6" and ?bad = "freshRng (failingFrom 8)" and ?good = "freshRng cyclingSource"
  have v: "validateConfig ?c = None" by (rule valid_examples)
  have len: "nat (Length ?c) = 6" by (simp add: lowerOnly_def)
  have "fst (accumulate ?c ?bad) = Inr ''dkryfm''" by code_simp
  then have "accumulate ?c ?bad = (Inr ''dkryfm'', snd (accumulate ?c ?bad))"
    by (simp add: prod_eq_iff)
  from this accumulate_Inr(3) [OF v this]
  have a1: "accumulate ?c ?bad = (Inr ''dkryfm'', ?bad\<lparr>calls := 6\<rparr>)"
    by (simp add: len)
  have "fst (accumulate ?c ?good) = Inr ''dkryfm''" by code_simp
  then have "accumulate ?c ?good = (Inr ''dkryfm'', snd (accumulate ?c ?good))"
    by (simp add: prod_eq_iff)
  from this accumulate_Inr(3) [OF v this]
  have a2: "accumulate ?c ?good = (Inr ''dkryfm'', ?good\<lparr>calls := 6\<rparr>)"
    by (simp add: len)
  have r1: "inRange (source ?bad)" by (simp add: failingFrom_inRange)
  have r2: "inRange (source ?good)" by (simp add: cyclingSource_inRange)
  have none: "source ?bad (6 + (length ''dkryfm'' - 1 - 3)) (int 3 + 1) = None"
    by (simp add: failingFrom_def)
  then have "\<exists>i\<in>{1..<length ''dkryfm''}.
               source (?bad\<lparr>calls := 6\<rparr>)
                 (calls (?bad\<lparr>calls := 6\<rparr>) + (length ''dkryfm'' - 1 - i)) (int i + 1) = None"
    by (intro bexI [of _ 3]) simp_all
  with shuffle_fisher_yates [OF v a1 r1]
  have failed: "\<exists>s2. generatePassword ?c ?bad = (Inl (ShuffleFailed ReaderError), s2)"
    by blast
  have "\<forall>i\<in>{1..<length ''dkryfm''}.
          source (?good\<lparr>calls := 6\<rparr>)
            (calls (?good\<lparr>calls := 6\<rparr>) + (length ''dkryfm'' - 1 - i)) (int i + 1) \<noteq> None"
    by (simp add: cyclingSource_def)
  with shuffle_fisher_yates [OF v a2 r2]
  have "generatePassword ?c ?good =
          (Inr (fisherYates (\<lambda>i. drawnIndex (?good\<lparr>calls := 6\<rparr>) (length ''dkryfm'' - 1 - i)
                                  (int i + 1)) ''dkryfm''),
           ?good\<lparr>calls := 6\<rparr>\<lparr>calls := calls (?good\<lparr>calls := 6\<rparr>) + (length ''dkryfm'' - 1)\<rparr>)"
    by blast
  moreover have "fisherYates (\<lambda>i. drawnIndex (?good\<lparr>calls := 6\<rparr>) (length ''dkryfm'' - 1 - i)
                                  (int i + 1)) ''dkryfm'' = ''fkdmry''"
    by code_simp
  ultimately have ok: "generatePassword ?c ?good = (Inr ''fkdmry'', ?good\<lparr>calls := 11\<rparr>)"
    by simp
  from v a1 r1 none failed a2 r2 ok show ?thesis by blast
qed

text \<open>
  C9: the shuffle is a permutation: the password returned has the same multiset of
  characters as the builder held just before the shuffle.
\<close>

theorem shuffle_permutes:
  assumes "accumulate config s = (Inr acc, s1)"
    and "generatePassword config s = (Inr pw, s2)"
  shows "shuffle acc s1 = (Inr pw, s2) \<and> mset pw = mset acc"
proof -
  from assms(2) obtain acc' s1' where "accumulate config s = (Inr acc', s1')"
    and sh: "shuffle acc' s1' = (Inr pw, s2)"
    by (rule generatePassword_Inr)
  with assms(1) have "acc' = acc" "s1' = s1" by simp_all
  with sh have "shuffle acc s1 = (Inr pw, s2)" by simp
  with shuffle_Inr [OF this] show ?thesis by simp
qed

theorem shuffle_permutes_witness:
  "fst (accumulate (lowerAndNumbers 6) (freshRng cyclingSource)) = Inr ''d0ry5c''
   \<and> fst (generatePassword (lowerAndNumbers 6) (freshRng cyclingSource)) = Inr ''50dcry''
   \<and> mset ''50dcry'' = mset ''d0ry5c''"
proof -
  let ?c = "lowerAndNumbers 6" and ?s = "freshRng cyclingSource"
  have a: "fst (accumulate ?c ?s) = Inr ''d0ry5c''" by code_simp
  have f: "fst (generatePassword ?c ?s) = Inr ''50dcry''" by code_simp
  from a have a': "accumulate ?c ?s = (Inr ''d0ry5c'', snd (accumulate ?c ?s))"
    by (simp add: prod_eq_iff)
  from f have f': "generatePassword ?c ?s = (Inr ''50dcry'', snd (generatePassword ?c ?s))"
    by (simp add: prod_eq_iff)
  from shuffle_permutes [OF a' f'] a f show ?thesis by simp
qed

text \<open>
  C10: a successful run on a valid configuration with \<open>k\<close> enabled classes makes \<open>k\<close>
  draws for the guaranteed inclusion, \<open>Length - k\<close> for the fill loop and \<open>Length - 1\<close>
  for the shuffle, \<open>2 * Length - 1\<close> in all.
\<close>

theorem draw_count:
  assumes "validateConfig config = None"
    and "generatePassword config s = (Inr pw, s3)"
  shows "\<exists>p1 s1 acc s2.
           guaranteeInclusion config s = (Inr p1, s1)
           \<and> calls s1 = calls s + enabledCount config
           \<and> accumulate config s = (Inr acc, s2)
           \<and> calls s2 = calls s1 + (nat (Length config) - enabledCount config)
           \<and> shuffle acc s2 = (Inr pw, s3)
           \<and> calls s3 = calls s2 + (nat (Length config) - 1)
           \<and> int (calls s3) - int (calls s) = 2 * Length config - 1"
proof -
  from assms(2) obtain acc s2 where acc: "accumulate config s = (Inr acc, s2)"
    and sh: "shuffle acc s2 = (Inr pw, s3)"
    by (rule generatePassword_Inr)
  let ?n = "nat (Length config)" and ?k = "enabledCount config"
  let ?s1 = "s\<lparr>calls := calls s + ?k\<rparr>"
  have k: "?k \<le> 4" using enabledTables_length [of config] by (simp add: enabledCount_tables)
  have n: "6 \<le> Length config" using assms(1) by (rule valid_length)
  from accumulate_Inr [OF assms(1) acc]
  have len: "length acc = ?n" and s2: "s2 = s\<lparr>calls := calls s + ?n\<rparr>" by simp_all
  from shuffle_Inr [OF sh] len have s3: "s3 = s2\<lparr>calls := calls s2 + (?n - 1)\<rparr>" by simp
  have "guaranteeInclusion config s = (Inr (take ?k acc), ?s1)"
    using assms(1) acc by (rule guaranteeInclusion_prefix)
  moreover have "calls ?s1 = calls s + ?k" by simp
  moreover have "calls s2 = calls ?s1 + (?n - ?k)" using k n by (simp add: s2)
  moreover have "calls s3 = calls s2 + (?n - 1)" by (simp add: s3)
  moreover have "int (calls s3) - int (calls s) = 2 * Length config - 1"
    using n by (simp add: s3 s2)
  ultimately show ?thesis using acc sh by blast
qed

theorem draw_count_witness:
  "validateConfig (allClasses 12) = None
   \<and> fst (generatePassword (allClasses 12) (freshRng cyclingSource)) = Inr ''7F7M%+0|dKT>''
   \<and> enabledCount (allClasses 12) = 4
   \<and> calls (snd (guaranteeInclusion (allClasses 12) (freshRng cyclingSource))) = 4
   \<and> calls (snd (accumulate (allClasses 12) (freshRng cyclingSource))) = 4 + 8
   \<and> calls (snd (generatePassword (allClasses 12) (freshRng cyclingSource))) = 4 + 8 + 11"
proof -
  let ?c = "allClasses 12" and ?s = "freshRng cyclingSource"
  have v: "validateConfig ?c = None" by (rule valid_examples)
  have f: "fst (generatePassword ?c ?s) = Inr ''7F7M%+0|dKT>''" by code_simp
  then have g: "generatePassword ?c ?s = (Inr ''7F7M%+0|dKT>'', snd (generatePassword ?c ?s))"
    by (simp add: prod_eq_iff)
  have k: "enabledCount ?c = 4" by (simp add: enabledCount_def allClasses_def)
  have n: "nat (Length ?c) = 12" by (simp add: allClasses_def)
  from draw_count [OF v g] obtain p1 s1 acc s2 where
    "guaranteeInclusion ?c ?s = (Inr p1, s1)" "calls s1 = calls ?s + enabledCount ?c"
    "accumulate ?c ?s = (Inr acc, s2)" "calls s2 = calls s1 + (nat (Length ?c) - enabledCount ?c)"
    "calls (snd (generatePassword ?c ?s)) = calls s2 + (nat (Length ?c) - 1)"
    by auto
  with v f k n show ?thesis by simp
qed

end
